theory Spec2Isabelle
  imports Main "HOL-Library.Multiset"
begin

section \<open>Geometry: boxes, padding and the overlap merge\<close>

text \<open>
  \<^verbatim>\<open>utils/ocr_mask.py\<close> works with two shapes of rectangle.  A box is the tuple
  \<^verbatim>\<open>(x, y, w, h)\<close> that the detectors produce and the drawing loop consumes; inside
  \<^verbatim>\<open>_merge_overlaps\<close> a rectangle is the corner list \<^verbatim>\<open>[x1, y1, x2, y2]\<close>.  Python
  integers are unbounded, hence \<^typ>\<open>int\<close>.
\<close>

type_synonym box = "int \<times> int \<times> int \<times> int"
datatype rect = Rect int int int int

text \<open>
  \<^verbatim>\<open>def _expand_bbox(left, top, width, height, pad=4):
      return max(0, left - pad), max(0, top - pad), width + 2*pad, height + 2*pad\<close>
\<close>

definition expand_bbox :: "int \<Rightarrow> int \<Rightarrow> int \<Rightarrow> int \<Rightarrow> int \<Rightarrow> box" where
  "expand_bbox l t w h pad = (max 0 (l - pad), max 0 (t - pad), w + 2 * pad, h + 2 * pad)"

text \<open>The conversion loops at the start and the end of \<^verbatim>\<open>_merge_overlaps\<close>.\<close>

fun to_corners :: "box \<Rightarrow> rect" where
  "to_corners (x, y, w, h) = Rect x y (x + w) (y + h)"

fun from_corners :: "rect \<Rightarrow> box" where
  "from_corners (Rect x1 y1 x2 y2) = (x1, y1, x2 - x1, y2 - y1)"

text \<open>
  The test of line 83, \<^verbatim>\<open>not (x2 < a1 or a2 < x1 or y2 < b1 or b2 < y1)\<close>, and the
  update of lines 85 and 86.
\<close>

fun overlap :: "rect \<Rightarrow> rect \<Rightarrow> bool" where
  "overlap (Rect x1 y1 x2 y2) (Rect a1 b1 a2 b2) =
     (\<not> (x2 < a1 \<or> a2 < x1 \<or> y2 < b1 \<or> b2 < y1))"

fun union_rect :: "rect \<Rightarrow> rect \<Rightarrow> rect" where
  "union_rect (Rect x1 y1 x2 y2) (Rect a1 b1 a2 b2) =
     Rect (min x1 a1) (min y1 b1) (max x2 a2) (max y2 b2)"

text \<open>
  The inner \<^verbatim>\<open>for j in range(i+1, len(rects))\<close>: the first argument is the list
  \<^verbatim>\<open>rects\<close>, the second the indices still to visit, the state is the running
  rectangle \<^verbatim>\<open>x1, y1, x2, y2\<close>, the flag list \<^verbatim>\<open>used\<close> and the flag \<^verbatim>\<open>merged\<close>.
\<close>

fun inner_loop :: "rect list \<Rightarrow> nat list \<Rightarrow> rect \<times> bool list \<times> bool \<Rightarrow> rect \<times> bool list \<times> bool" where
  "inner_loop rects [] st = st"
| "inner_loop rects (j # js) (cur, used, merged) =
     (if used ! j then inner_loop rects js (cur, used, merged)
      else if overlap cur (rects ! j)
        then inner_loop rects js (union_rect cur (rects ! j), used[j := True], True)
        else inner_loop rects js (cur, used, merged))"

text \<open>
  The outer \<^verbatim>\<open>for i in range(len(rects))\<close>, with state \<^verbatim>\<open>used\<close>, \<^verbatim>\<open>merged\<close> and
  \<^verbatim>\<open>new_rects\<close>.
\<close>

fun outer_loop :: "rect list \<Rightarrow> nat list \<Rightarrow> bool list \<times> bool \<times> rect list \<Rightarrow> bool list \<times> bool \<times> rect list" where
  "outer_loop rects [] st = st"
| "outer_loop rects (i # is) (used, merged, new_rects) =
     (if used ! i then outer_loop rects is (used, merged, new_rects)
      else
        (case inner_loop rects [Suc i ..< length rects] (rects ! i, used, merged) of
           (cur, used', merged') \<Rightarrow>
             outer_loop rects is (used'[i := True], merged', new_rects @ [cur])))"

text \<open>One round of the \<^verbatim>\<open>while merged\<close> loop: the flag and \<^verbatim>\<open>new_rects\<close>.\<close>

definition merge_pass :: "rect list \<Rightarrow> bool \<times> rect list" where
  "merge_pass rects =
     (case outer_loop rects [0 ..< length rects] (replicate (length rects) False, False, []) of
        (used, merged, new_rects) \<Rightarrow> (merged, new_rects))"

declare overlap.simps [simp del] union_rect.simps [simp del]

subsection \<open>The round as a list traversal\<close>

text \<open>
  The flag list \<^verbatim>\<open>used\<close> only ever hides entries from later iterations.  The two
  functions below say the same without indices: \<open>absorb\<close> lets the running rectangle
  swallow every later rectangle it overlaps and hands back the ones it left alone, and
  \<open>sweep\<close> repeats that on what is left.  They are not part of the program; they are
  shown equal to the index loops (\<open>merge_pass_sweep\<close>) and carry the proofs, starting
  with the termination of the \<^verbatim>\<open>while\<close> loop.
\<close>


fun absorb :: "rect \<Rightarrow> rect list \<Rightarrow> rect \<times> rect list \<times> bool" where
  "absorb cur [] = (cur, [], False)"
| "absorb cur (r # rs) =
     (if overlap cur r
      then (case absorb (union_rect cur r) rs of (c, keep, m) \<Rightarrow> (c, keep, True))
      else (case absorb cur rs of (c, keep, m) \<Rightarrow> (c, r # keep, m)))"

lemma absorb_length: "length (fst (snd (absorb cur rs))) \<le> length rs"
  proof (induction rs arbitrary: cur)
  case Nil
  show ?case by simp
next
  case (Cons r rs)
  show ?case
    using Cons.IH[of cur] Cons.IH[of "union_rect cur r"] by (simp add: case_prod_beta)
qed

function sweep :: "rect list \<Rightarrow> rect list \<times> bool" where
  "sweep [] = ([], False)"
| "sweep (r # rs) =
     (case absorb r rs of (c, keep, m) \<Rightarrow>
        (case sweep keep of (out, m') \<Rightarrow> (c # out, m \<or> m')))"
  by pat_completeness auto
termination
proof (relation "measure length")
  show "wf (measure length)" by simp
next
  fix r rs x c y keep m
  assume "(c, y) = absorb r rs" "(keep, m) = y"
  then have "keep = fst (snd (absorb r rs))" by (metis fst_conv snd_conv)
  then show "(keep, r # rs) \<in> measure length"
    using absorb_length[of r rs] by simp
qed

definition live :: "rect list \<Rightarrow> bool list \<Rightarrow> nat list \<Rightarrow> rect list" where
  "live rects used js = map (\<lambda>k. rects ! k) (filter (\<lambda>k. \<not> used ! k) js)"

lemma live_Nil [simp]: "live rects used [] = []"
  by (simp add: live_def)

lemma live_Cons [simp]:
  "live rects used (j # js) = (if used ! j then live rects used js else rects ! j # live rects used js)"
  by (simp add: live_def)

lemma live_cong: "\<forall>k\<in>set js. used' ! k = used ! k \<Longrightarrow> live rects used' js = live rects used js"
  unfolding live_def by (metis (mono_tags, lifting) filter_cong)

lemma inner_loop_absorb:
  "distinct js \<Longrightarrow> \<forall>j\<in>set js. j < length used \<Longrightarrow>
   fst (inner_loop rects js (cur, used, merged)) = fst (absorb cur (live rects used js))
   \<and> snd (snd (inner_loop rects js (cur, used, merged))) = (merged \<or> snd (snd (absorb cur (live rects used js))))
   \<and> live rects (fst (snd (inner_loop rects js (cur, used, merged)))) js = fst (snd (absorb cur (live rects used js)))
   \<and> length (fst (snd (inner_loop rects js (cur, used, merged)))) = length used
   \<and> (\<forall>k. k \<notin> set js \<longrightarrow> fst (snd (inner_loop rects js (cur, used, merged))) ! k = used ! k)"
proof (induction js arbitrary: cur used merged)
  case Nil
  then show ?case by simp
next
  case (Cons j js)
  from Cons.prems have d: "distinct js" "j \<notin> set js" "j < length used"
    and b: "\<forall>k\<in>set js. k < length used" by auto
  show ?case
  proof (cases "used ! j")
    case True
    note ih = Cons.IH[OF d(1) b, of cur merged]
    from ih d(2) True have "fst (snd (inner_loop rects js (cur, used, merged))) ! j" by simp
    with ih True show ?thesis by simp
  next
    case False
    show ?thesis
    proof (cases "overlap cur (rects ! j)")
      case ov: True
      let ?u = "used[j := True]"
      have b': "\<forall>k\<in>set js. k < length ?u" using b by simp
      note ih = Cons.IH[OF d(1) b', of "union_rect cur (rects ! j)" True]
      have lv: "live rects ?u js = live rects used js"
        by (rule live_cong) (metis d(2) nth_list_update_neq)
      from ih d(2,3) have uj: "fst (snd (inner_loop rects js (union_rect cur (rects ! j), ?u, True))) ! j" by simp
      have oth: "\<forall>k. k \<notin> set (j # js) \<longrightarrow> fst (snd (inner_loop rects js (union_rect cur (rects ! j), ?u, True))) ! k = used ! k"
        using ih by auto
      show ?thesis using ih False ov uj oth lv by (simp split: prod.splits)
    next
      case nov: False
      note ih = Cons.IH[OF d(1) b, of cur merged]
      from ih d(2) False have "\<not> fst (snd (inner_loop rects js (cur, used, merged))) ! j" by simp
      with ih False nov show ?thesis by (simp split: prod.splits)
    qed
  qed
qed


lemma live_update_notin:
  "i \<notin> set js \<Longrightarrow> live rects (used[i := b]) js = live rects used js"
  by (rule live_cong) (metis nth_list_update_neq)

lemma outer_loop_sweep:
  "length used = length rects \<Longrightarrow> i \<le> length rects \<Longrightarrow>
   fst (snd (outer_loop rects [i ..< length rects] (used, merged, new))) =
     (merged \<or> snd (sweep (live rects used [i ..< length rects])))
   \<and> snd (snd (outer_loop rects [i ..< length rects] (used, merged, new))) =
     new @ fst (sweep (live rects used [i ..< length rects]))"
proof (induction "length rects - i" arbitrary: i used merged new)
  case 0
  then show ?case by simp
next
  case (Suc d)
  let ?n = "length rects"
  from Suc have lt: "i < ?n" and d: "d = ?n - Suc i" and le: "Suc i \<le> ?n" by auto
  have up: "[i ..< ?n] = i # [Suc i ..< ?n]" using lt by (simp add: upt_conv_Cons)
  show ?case
  proof (cases "used ! i")
    case True
    from Suc.hyps(1)[OF d Suc.prems(1) le, of merged new] True
    show ?thesis by (simp add: up)
  next
    case False
    let ?js = "[Suc i ..< ?n]"
    let ?I = "inner_loop rects ?js (rects ! i, used, merged)"
    let ?A = "absorb (rects ! i) (live rects used ?js)"
    have pre: "distinct ?js" "\<forall>j\<in>set ?js. j < length used"
      using Suc.prems by auto
    note il = inner_loop_absorb[OF pre, of rects "rects ! i" merged]
    let ?u = "(fst (snd ?I))[i := True]"
    have len: "length ?u = ?n" using il Suc.prems by simp
    have lv: "live rects ?u ?js = fst (snd ?A)"
      using il by (simp add: live_update_notin)
    from Suc.hyps(1)[OF d len le, of "snd (snd ?I)" "new @ [fst ?I]"]
    have ih: "fst (snd (outer_loop rects ?js (?u, snd (snd ?I), new @ [fst ?I]))) = (snd (snd ?I) \<or> snd (sweep (fst (snd ?A))))"
      "snd (snd (outer_loop rects ?js (?u, snd (snd ?I), new @ [fst ?I]))) = (new @ [fst ?I]) @ fst (sweep (fst (snd ?A)))"
      by (simp_all add: lv)
    have ol: "outer_loop rects [i ..< ?n] (used, merged, new) = outer_loop rects ?js (?u, snd (snd ?I), new @ [fst ?I])"
      using False by (simp add: up case_prod_beta)
    have sw: "sweep (live rects used [i ..< ?n]) = (fst ?A # fst (sweep (fst (snd ?A))), snd (snd ?A) \<or> snd (sweep (fst (snd ?A))))"
      using False by (simp add: up case_prod_beta)
    show ?thesis using ih il by (simp add: ol sw)
  qed
qed

lemma live_all: "live rects (replicate (length rects) False) [0 ..< length rects] = rects"
  by (simp add: live_def map_nth cong: filter_cong)

lemma merge_pass_sweep: "merge_pass rects = (snd (sweep rects), fst (sweep rects))"
  using outer_loop_sweep[of "replicate (length rects) False" rects 0 False "[]"]
  by (simp add: merge_pass_def case_prod_beta live_all prod_eq_iff)

lemma absorb_merged_length:
  "snd (snd (absorb cur rs)) \<Longrightarrow> length (fst (snd (absorb cur rs))) < length rs"
proof (induction rs arbitrary: cur)
  case Nil
  then show ?case by simp
next
  case (Cons r rs)
  show ?case
    using Cons.IH[of cur] Cons.prems absorb_length[of "union_rect cur r" rs]
    by (simp add: case_prod_beta split: if_splits)
qed

lemma sweep_length: "length (fst (sweep rs)) \<le> length rs"
proof (induction rs rule: sweep.induct)
  case 1
  show ?case by simp
next
  case (2 r rs)
  show ?case
    using 2[OF prod.collapse prod.collapse] absorb_length[of r rs]
    by (simp add: case_prod_beta)
qed

lemma sweep_merged_length: "snd (sweep rs) \<Longrightarrow> length (fst (sweep rs)) < length rs"
proof (induction rs rule: sweep.induct)
  case 1
  then show ?case by simp
next
  case (2 r rs)
  note ih = 2(1)[OF prod.collapse prod.collapse]
  show ?case
    using ih 2(2) absorb_length[of r rs] absorb_merged_length[of r rs] sweep_length[of "fst (snd (absorb r rs))"]
    by (auto simp add: case_prod_beta)
qed

subsection \<open>The while loop and the function itself\<close>

text \<open>
  \<^verbatim>\<open>merged = True
  while merged: ... rects = new_rects\<close>
  The body runs at least once; a round that merged something returns a shorter list,
  which is the measure of the termination proof.  \<^verbatim>\<open>_merge_overlaps\<close> returns
  \<^verbatim>\<open>[]\<close> for no boxes, and otherwise converts to corners, runs the loop and converts
  back.
\<close>

function merge_loop :: "rect list \<Rightarrow> rect list" where
  "merge_loop rects =
     (case merge_pass rects of (merged, new_rects) \<Rightarrow>
        if merged then merge_loop new_rects else new_rects)"
  by pat_completeness auto
termination
proof (relation "measure length")
  show "wf (measure length)" by simp
next
  fix rects :: "rect list" and merged new_rects
  assume "(merged, new_rects) = merge_pass rects" "merged"
  then show "(new_rects, rects) \<in> measure length"
    using sweep_merged_length[of rects] by (simp add: merge_pass_sweep)
qed

declare merge_loop.simps [simp del]

definition merge_overlaps :: "box list \<Rightarrow> box list" where
  "merge_overlaps boxes =
     (if boxes = [] then [] else map from_corners (merge_loop (map to_corners boxes)))"



section \<open>Text: character classes, stripping and the identifier pattern\<close>

text \<open>
  A Python \<^verbatim>\<open>str\<close> is a sequence of code points; \<^typ>\<open>string\<close> holds the code points
  below 256 (ASCII and Latin-1).  The classes below are those of
  CPython on that range: \<^verbatim>\<open>\d\<close> is the decimal digits, \<^verbatim>\<open>\w\<close> is
  alphanumeric-or-underscore (the Latin-1 letters, the superscript digits and the vulgar
  fractions included), \<^verbatim>\<open>str.strip()\<close> removes white space, and \<^verbatim>\<open>isupper\<close>,
  \<^verbatim>\<open>islower\<close> and \<^verbatim>\<open>lower\<close> follow the case properties of the characters.
\<close>

definition between :: "nat \<Rightarrow> nat \<Rightarrow> char \<Rightarrow> bool" where
  "between lo hi c = (lo \<le> of_char c \<and> (of_char c :: nat) \<le> hi)"

definition re_digit :: "char \<Rightarrow> bool" where
  "re_digit c = between 48 57 c"

definition re_word :: "char \<Rightarrow> bool" where
  "re_word c =
     (between 48 57 c \<or> between 65 90 c \<or> between 95 95 c \<or> between 97 122 c
      \<or> between 170 170 c \<or> between 178 179 c \<or> between 181 181 c \<or> between 185 186 c
      \<or> between 188 190 c \<or> between 192 214 c \<or> between 216 246 c \<or> between 248 255 c)"

definition py_isspace :: "char \<Rightarrow> bool" where
  "py_isspace c = (between 9 13 c \<or> between 28 32 c \<or> between 133 133 c \<or> between 160 160 c)"

definition py_isupper :: "char \<Rightarrow> bool" where
  "py_isupper c = (between 65 90 c \<or> between 192 214 c \<or> between 216 222 c)"

definition py_islower :: "char \<Rightarrow> bool" where
  "py_islower c =
     (between 97 122 c \<or> between 170 170 c \<or> between 181 181 c \<or> between 186 186 c
      \<or> between 223 246 c \<or> between 248 255 c)"

definition lower_char :: "char \<Rightarrow> char" where
  "lower_char c = (if py_isupper c then char_of (of_char c + (32::nat)) else c)"

definition lower :: "string \<Rightarrow> string" where
  "lower s = map lower_char s"

definition lstrip :: "(char \<Rightarrow> bool) \<Rightarrow> string \<Rightarrow> string" where
  "lstrip p s = dropWhile p s"

definition rstrip :: "(char \<Rightarrow> bool) \<Rightarrow> string \<Rightarrow> string" where
  "rstrip p s = rev (dropWhile p (rev s))"

definition strip :: "(char \<Rightarrow> bool) \<Rightarrow> string \<Rightarrow> string" where
  "strip p s = rstrip p (lstrip p s)"


text \<open>
  \<^verbatim>\<open>SSN_REGEX = re.compile(r"\b(\d{3}[- ]?\d{2}[- ]?\d{4})\b")\<close>.  A pattern is a
  term of \<open>regex\<close>; \<open>match_ends r s i\<close> lists, in the order a backtracking matcher
  tries them, the positions where a match of \<open>r\<close> that starts at position \<open>i\<close> of \<open>s\<close>
  can end.  \<^verbatim>\<open>\d{n}\<close> is \<open>n\<close> copies of \<^verbatim>\<open>\d\<close> in sequence, and
  \<^verbatim>\<open>SSN_REGEX.search(t)\<close> is truthy when a match starts at some position of \<open>t\<close>.
\<close>

datatype regex = Eps | Digit | OneOf string | WordBoundary | Opt regex | Seq regex regex
  | Group regex

primrec repeated :: "nat \<Rightarrow> regex \<Rightarrow> regex" where
  "repeated 0 r = Eps"
| "repeated (Suc n) r = Seq r (repeated n r)"

definition word_boundary :: "string \<Rightarrow> nat \<Rightarrow> bool" where
  "word_boundary s i =
     ((0 < i \<and> i \<le> length s \<and> re_word (s ! (i - 1))) \<noteq> (i < length s \<and> re_word (s ! i)))"

fun match_ends :: "regex \<Rightarrow> string \<Rightarrow> nat \<Rightarrow> nat list" where
  "match_ends Eps s i = [i]"
| "match_ends Digit s i = (if i < length s \<and> re_digit (s ! i) then [Suc i] else [])"
| "match_ends (OneOf cs) s i = (if i < length s \<and> s ! i \<in> set cs then [Suc i] else [])"
| "match_ends WordBoundary s i = (if word_boundary s i then [i] else [])"
| "match_ends (Opt r) s i = match_ends r s i @ [i]"
| "match_ends (Seq r1 r2) s i = concat (map (match_ends r2 s) (match_ends r1 s i))"
| "match_ends (Group r) s i = match_ends r s i"

definition re_search :: "regex \<Rightarrow> string \<Rightarrow> bool" where
  "re_search r s = list_ex (\<lambda>i. match_ends r s i \<noteq> []) [0 ..< Suc (length s)]"

definition SSN_REGEX :: regex where
  "SSN_REGEX =
     Seq WordBoundary
       (Seq (Group (Seq (repeated 3 Digit) (Seq (Opt (OneOf ''- ''))
                   (Seq (repeated 2 Digit) (Seq (Opt (OneOf ''- '')) (repeated 4 Digit))))))
            WordBoundary)"


section \<open>Word tokens and the two detectors\<close>

text \<open>
  A word is the dictionary built in \<^verbatim>\<open>_read_words_with_boxes\<close>, with the keys
  \<^verbatim>\<open>text\<close>, \<^verbatim>\<open>left\<close>, \<^verbatim>\<open>top\<close>, \<^verbatim>\<open>width\<close> and \<^verbatim>\<open>height\<close>.  The key
  \<^verbatim>\<open>conf\<close> is a float that neither detector reads; it is left out.  The argument of
  \<open>read_words_with_boxes\<close> is the table that the recognizer returned, one row per
  index \<open>i\<close> of \<^verbatim>\<open>data["text"]\<close>.
\<close>

record word =
  word_text :: string
  word_left :: int
  word_top :: int
  word_width :: int
  word_height :: int

fun read_words_with_boxes :: "word list \<Rightarrow> word list" where
  "read_words_with_boxes [] = []"
| "read_words_with_boxes (d # ds) =
     (let txt = strip py_isspace (word_text d) in
      if txt = [] then read_words_with_boxes ds
      else \<lparr>word_text = txt, word_left = word_left d, word_top = word_top d,
             word_width = word_width d, word_height = word_height d\<rparr>
             # read_words_with_boxes ds)"


text \<open>\<^verbatim>\<open>_find_ssn_boxes\<close>: the loop that collects \<^verbatim>\<open>hits\<close>, then the merge.\<close>

fun ssn_hits :: "word list \<Rightarrow> box list" where
  "ssn_hits [] = []"
| "ssn_hits (w # ws) =
     (if re_search SSN_REGEX (word_text w)
      then expand_bbox (word_left w) (word_top w) (word_width w) (word_height w) 2 # ssn_hits ws
      else ssn_hits ws)"

definition find_ssn_boxes :: "word list \<Rightarrow> box list" where
  "find_ssn_boxes words = merge_overlaps (ssn_hits words)"


text \<open>
  \<^verbatim>\<open>_find_name_boxes\<close>.  \<open>pair_box\<close> is the box computed in lines 119 to 123 and
  again in lines 134 to 138; \<open>is_label\<close> is the test of line 114,
  \<^verbatim>\<open>t.strip(":").lower() in NAME_LABELS\<close>; \<open>lookahead\<close> is the loop over
  \<^verbatim>\<open>k in range(1, 4)\<close> and \<open>label_loop\<close> the loop over the words.  \<open>is_cap_word\<close>
  is the local function of line 127: \<^verbatim>\<open>s[1:].islower()\<close> holds when the rest has no
  upper-case character and at least one lower-case one.  \<open>cap_loop\<close> is the
  \<^verbatim>\<open>while i < len(words) - 1\<close> loop.
\<close>

definition NAME_LABELS :: "string set" where
  "NAME_LABELS = {''name'', ''applicant'', ''holder'', ''bearer''}"



definition pair_box :: "word \<Rightarrow> word \<Rightarrow> box" where
  "pair_box w nxt =
     (let x = min (word_left w) (word_left nxt);
          y = min (word_top w) (word_top nxt);
          x2 = max (word_left w + word_width w) (word_left nxt + word_width nxt);
          y2 = max (word_top w + word_height w) (word_top nxt + word_height nxt)
      in expand_bbox x y (x2 - x) (y2 - y) 2)"

definition is_label :: "string \<Rightarrow> bool" where
  "is_label t = (lower (strip (\<lambda>c. c \<in> set '':'') t) \<in> NAME_LABELS)"

fun lookahead :: "word list \<Rightarrow> nat \<Rightarrow> nat list \<Rightarrow> box list" where
  "lookahead words i [] = []"
| "lookahead words i (k # ks) =
     (if i + k < length words
      then pair_box (words ! i) (words ! (i + k)) # lookahead words i ks
      else lookahead words i ks)"

fun label_loop :: "word list \<Rightarrow> nat list \<Rightarrow> box list" where
  "label_loop words [] = []"
| "label_loop words (i # is) =
     (if is_label (word_text (words ! i))
      then lookahead words i [1, 2, 3] @ label_loop words is
      else label_loop words is)"

definition is_cap_word :: "string \<Rightarrow> bool" where
  "is_cap_word s =
     (1 < length s \<and> py_isupper (hd s)
      \<and> (\<forall>c\<in>set (tl s). \<not> py_isupper c) \<and> (\<exists>c\<in>set (tl s). py_islower c))"

function cap_loop :: "word list \<Rightarrow> nat \<Rightarrow> box list" where
  "cap_loop words i =
     (if Suc i < length words
      then (if is_cap_word (word_text (words ! i)) \<and> is_cap_word (word_text (words ! Suc i))
            then pair_box (words ! i) (words ! Suc i) # cap_loop words (i + 2)
            else cap_loop words (i + 1))
      else [])"
  by pat_completeness auto
termination
  by (relation "measure (\<lambda>(words, i). length words - i)") auto

declare cap_loop.simps [simp del]

definition find_name_boxes :: "word list \<Rightarrow> box list" where
  "find_name_boxes words =
     merge_overlaps (label_loop words [0 ..< length words] @ cap_loop words 0)"


section \<open>The pipeline\<close>

text \<open>
  \<^verbatim>\<open>mask_sensitive_info\<close> calls four library functions; they are the fields of the
  environment \<open>E\<close>: \<^verbatim>\<open>cv2.imread\<close> (\<open>None\<close> when the file cannot be decoded),
  the recognizer called in \<^verbatim>\<open>_read_words_with_boxes\<close> (it yields the table of rows,
  or raises, as do the conversions of its columns), \<^verbatim>\<open>cv2.rectangle\<close> with the two
  corner points, and \<^verbatim>\<open>cv2.imwrite\<close>.  The file system is a state that
  \<open>imread\<close> reads and \<open>imwrite\<close> returns updated.  An exception is an \<open>Inl\<close>
  result: the \<^verbatim>\<open>ValueError\<close> of line 154 carries its message, an exception of a
  library call passes through unchanged, and in both cases the file system is the one
  the call started with.
\<close>

datatype error = ValueError string | LibraryError string

record summary =
  ssn :: nat
  names :: nat
  total :: nat

record ('img, 'fs) env =
  imread :: "'fs \<Rightarrow> string \<Rightarrow> 'img option"
  image_to_data :: "'img \<Rightarrow> error + word list"
  rectangle :: "'img \<Rightarrow> int \<times> int \<Rightarrow> int \<times> int \<Rightarrow> 'img"
  imwrite :: "'fs \<Rightarrow> string \<Rightarrow> 'img \<Rightarrow> error + 'fs"

fun draw :: "('img, 'fs) env \<Rightarrow> 'img \<Rightarrow> box list \<Rightarrow> 'img" where
  "draw E img [] = img"
| "draw E img ((x, y, w, h) # bs) = draw E (rectangle E img (x, y) (x + w, y + h)) bs"

definition mask_sensitive_info ::
  "('img, 'fs) env \<Rightarrow> 'fs \<Rightarrow> string \<Rightarrow> string \<Rightarrow> (error + string \<times> summary) \<times> 'fs" where
  "mask_sensitive_info E fs input_path output_path =
     (case imread E fs input_path of
        None \<Rightarrow> (Inl (ValueError (''Could not read image: '' @ input_path)), fs)
      | Some img \<Rightarrow>
          (case image_to_data E img of
             Inl e \<Rightarrow> (Inl e, fs)
           | Inr data \<Rightarrow>
               (let words = read_words_with_boxes data;
                    ssn_boxes = find_ssn_boxes words;
                    name_boxes = find_name_boxes words;
                    img' = draw E img (ssn_boxes @ name_boxes)
                in case imwrite E fs output_path img' of
                     Inl e \<Rightarrow> (Inl e, fs)
                   | Inr fs' \<Rightarrow>
                       (Inr (output_path,
                             \<lparr>ssn = length ssn_boxes, names = length name_boxes,
                              total = length ssn_boxes + length name_boxes\<rparr>), fs'))))"


section \<open>Vocabulary of the properties\<close>

text \<open>
  \<open>inside r s\<close>: every edge of \<open>r\<close> lies within \<open>s\<close>.  \<open>region b\<close>: the points
  \<open>(u, v)\<close> with \<open>x \<le> u \<le> x + w\<close> and \<open>y \<le> v \<le> y + h\<close>; for a box of non-negative
  width and height these are the pixels that the drawing loop paints for it, the
  filled rectangle from \<open>(x, y)\<close> to \<open>(x + w, y + h)\<close> with both corners included.
\<close>

fun inside :: "rect \<Rightarrow> rect \<Rightarrow> bool" where
  "inside (Rect x1 y1 x2 y2) (Rect a1 b1 a2 b2) = (a1 \<le> x1 \<and> b1 \<le> y1 \<and> x2 \<le> a2 \<and> y2 \<le> b2)"

definition region :: "box \<Rightarrow> (int \<times> int) set" where
  "region b = (case b of (x, y, w, h) \<Rightarrow> {(u, v). x \<le> u \<and> u \<le> x + w \<and> y \<le> v \<and> v \<le> y + h})"

text \<open>
  \<open>painted b\<close>: the points that \<^verbatim>\<open>cv2.rectangle\<close> fills for the box in the drawing
  loop of line 165.  It fills between the corners \<open>(x, y)\<close> and \<open>(x + w, y + h)\<close>, both
  included, whichever way round they lie; for a box of non-negative width and height
  this is \<open>region b\<close>.  \<open>image_pixels\<close>: the coordinates an image can have, offsets
  from its top-left origin.
\<close>

definition painted :: "box \<Rightarrow> (int \<times> int) set" where
  "painted b =
     (case b of (x, y, w, h) \<Rightarrow>
        {(u, v). min x (x + w) \<le> u \<and> u \<le> max x (x + w) \<and> min y (y + h) \<le> v \<and> v \<le> max y (y + h)})"

definition image_pixels :: "(int \<times> int) set" where
  "image_pixels = {(u, v). 0 \<le> u \<and> 0 \<le> v}"

text \<open>
  The label test as the specification words it: only trailing colons are stripped.
\<close>

definition trailing_colon_label :: "string \<Rightarrow> bool" where
  "trailing_colon_label t = (lower (rstrip (\<lambda>c. c \<in> set '':'') t) \<in> NAME_LABELS)"

text \<open>
  A small environment on which the pipeline can be evaluated: an image is the list of
  rectangles painted so far, the file system is an association list from paths to
  images, and the recognizer returns four rows, one of them blank.
\<close>

definition demo_words :: "word list" where
  "demo_words =
     [\<lparr>word_text = ''Name:'', word_left = 10, word_top = 10, word_width = 40, word_height = 12\<rparr>,
      \<lparr>word_text = ''John'', word_left = 60, word_top = 10, word_width = 30, word_height = 12\<rparr>,
      \<lparr>word_text = ''  '', word_left = 0, word_top = 0, word_width = 0, word_height = 0\<rparr>,
      \<lparr>word_text = ''123-45-6789'', word_left = 10, word_top = 100, word_width = 80, word_height = 12\<rparr>]"

definition demo_env :: "(box list, (string \<times> box list) list) env" where
  "demo_env =
     \<lparr>imread = (\<lambda>fs path. map_of fs path),
      image_to_data = (\<lambda>img. Inr demo_words),
      rectangle = (\<lambda>img (x1, y1) (x2, y2). img @ [(x1, y1, x2, y2)]),
      imwrite = (\<lambda>fs path img. Inr ((path, img) # fs))\<rparr>"


text \<open>The four tokens \<^verbatim>\<open>["Name", "John", "Doe", "Smith"]\<close> at sequential positions.\<close>

definition name_words :: "word list" where
  "name_words =
     [\<lparr>word_text = ''Name'', word_left = 0, word_top = 0, word_width = 40, word_height = 10\<rparr>,
      \<lparr>word_text = ''John'', word_left = 50, word_top = 0, word_width = 40, word_height = 10\<rparr>,
      \<lparr>word_text = ''Doe'', word_left = 100, word_top = 0, word_width = 30, word_height = 10\<rparr>,
      \<lparr>word_text = ''Smith'', word_left = 140, word_top = 0, word_width = 50, word_height = 10\<rparr>]"

section \<open>Merging as rewriting of a multiset of rectangles\<close>

text \<open>
  One merge replaces two overlapping rectangles of a multiset by their bounding union.
  Every round of the loop is a sequence of such steps, the loop stops on a multiset that
  admits no step, and the steps are terminating and locally confluent, so that multiset
  is determined by the input alone.
\<close>


lemma overlap_sym: "overlap a b = overlap b a"
  by (cases a; cases b) (auto simp: overlap.simps)

lemma union_rect_commute: "union_rect a b = union_rect b a"
  by (cases a; cases b) (simp add: union_rect.simps min.commute max.commute)

lemma union_rect_assoc: "union_rect (union_rect a b) c = union_rect a (union_rect b c)"
  by (cases a; cases b; cases c) (simp add: union_rect.simps min.assoc max.assoc)

lemma overlap_union_left: "overlap a c \<Longrightarrow> overlap (union_rect a b) c"
  by (cases a; cases b; cases c) (auto simp: overlap.simps union_rect.simps)

lemma inside_refl: "inside a a"
  by (cases a) simp

lemma inside_trans: "inside a b \<Longrightarrow> inside b c \<Longrightarrow> inside a c"
  by (cases a; cases b; cases c) simp

lemma inside_union_left: "inside a (union_rect a b)"
  by (cases a; cases b) (simp add: union_rect.simps)

lemma inside_union_right: "inside b (union_rect a b)"
  by (cases a; cases b) (simp add: union_rect.simps)

definition step :: "rect multiset \<Rightarrow> rect multiset \<Rightarrow> bool" where
  "step M N = (\<exists>K a b. M = add_mset a (add_mset b K) \<and> overlap a b \<and> N = add_mset (union_rect a b) K)"

definition normal :: "rect multiset \<Rightarrow> bool" where
  "normal M = (\<nexists>N. step M N)"

lemma stepI: "overlap a b \<Longrightarrow> M = add_mset a (add_mset b K) \<Longrightarrow> N = add_mset (union_rect a b) K \<Longrightarrow> step M N"
  unfolding step_def by blast

lemma step_size: "step M N \<Longrightarrow> size M = Suc (size N)"
  unfolding step_def by auto

lemma step_frame: "step M N \<Longrightarrow> step (M + F) (N + F)"
  unfolding step_def by (metis union_mset_add_mset_left)

lemma steps_frame: "step\<^sup>*\<^sup>* M N \<Longrightarrow> step\<^sup>*\<^sup>* (M + F) (N + F)"
  by (induction rule: rtranclp_induct) (auto intro: step_frame rtranclp.rtrancl_into_rtrancl)

lemma step_shared:
  assumes "overlap a b" "overlap a d"
  shows "\<exists>P. step (add_mset (union_rect a b) (add_mset d K)) P \<and> step (add_mset (union_rect a d) (add_mset b K)) P"
proof (intro exI conjI)
  show "step (add_mset (union_rect a b) (add_mset d K)) (add_mset (union_rect (union_rect a b) d) K)"
    by (rule stepI[OF overlap_union_left[OF assms(2)]]) simp_all
  have eq: "union_rect (union_rect a d) b = union_rect (union_rect a b) d"
    by (metis union_rect_assoc union_rect_commute)
  show "step (add_mset (union_rect a d) (add_mset b K)) (add_mset (union_rect (union_rect a b) d) K)"
    unfolding eq[symmetric] by (rule stepI[OF overlap_union_left[OF assms(1)]]) simp_all
qed


lemma step_disjoint:
  assumes "overlap a b" "overlap c d"
  shows "\<exists>P. step (add_mset (union_rect a b) (add_mset c (add_mset d K))) P
           \<and> step (add_mset (union_rect c d) (add_mset a (add_mset b K))) P"
proof (intro exI conjI)
  show "step (add_mset (union_rect a b) (add_mset c (add_mset d K)))
          (add_mset (union_rect c d) (add_mset (union_rect a b) K))"
    by (rule stepI[OF assms(2)]) simp_all
  show "step (add_mset (union_rect c d) (add_mset a (add_mset b K)))
          (add_mset (union_rect c d) (add_mset (union_rect a b) K))"
    by (rule stepI[OF assms(1)]) simp_all
qed

lemma step_local_confluence:
  assumes "step M N1" "step M N2"
  shows "N1 = N2 \<or> (\<exists>P. step N1 P \<and> step N2 P)"
proof -
  from assms(1) obtain K a b where
    M1: "M = add_mset a (add_mset b K)" and ab: "overlap a b" and N1: "N1 = add_mset (union_rect a b) K"
    unfolding step_def by blast
  from assms(2) obtain L c d where
    M2: "M = add_mset c (add_mset d L)" and cd: "overlap c d" and N2: "N2 = add_mset (union_rect c d) L"
    unfolding step_def by blast
  from M1 M2 have eq: "add_mset a (add_mset b K) = add_mset c (add_mset d L)" by simp
  then consider
      (same) "a = c" "add_mset b K = add_mset d L"
    | (diff) K0 where "add_mset b K = add_mset c K0" "add_mset d L = add_mset a K0"
    unfolding add_eq_conv_ex[of a _ c] by blast
  then show ?thesis
  proof cases
    case same
    from same(2) consider "b = d" "K = L" | K' where "K = add_mset d K'" "L = add_mset b K'"
      unfolding add_eq_conv_ex[of b _ d] by blast
    then show ?thesis
    proof cases
      case 1
      then show ?thesis using same N1 N2 by simp
    next
      case 2
      show ?thesis
        using step_shared[OF ab, of d K'] cd same(1) unfolding N1 N2 2 by simp
    qed
  next
    case diff
    from diff(1) consider "b = c" "K = K0" | K1 where "K = add_mset c K1" "K0 = add_mset b K1"
      unfolding add_eq_conv_ex[of b _ c] by blast
    then show ?thesis
    proof cases
      case 1
      from diff(2) 1 consider "d = a" "L = K" | L' where "L = add_mset a L'" "K = add_mset d L'"
        unfolding add_eq_conv_ex[of d _ a] by blast
      then show ?thesis
      proof cases
        case 1
        then show ?thesis using \<open>b = c\<close> N1 N2 by (simp add: union_rect_commute)
      next
        case 2
        have "overlap b a" "overlap b d" using ab cd \<open>b = c\<close> by (simp_all add: overlap_sym)
        from step_shared[OF this, of L'] show ?thesis
          unfolding N1 N2 2 using \<open>b = c\<close> by (simp add: union_rect_commute)
      qed
    next
      case 2
      from diff(2) 2 have "add_mset d L = add_mset a (add_mset b K1)" by simp
      then consider "d = a" "L = add_mset b K1"
        | L2 where "L = add_mset a L2" "add_mset b K1 = add_mset d L2"
        unfolding add_eq_conv_ex[of d _ a] by blast
      then show ?thesis
      proof cases
        case 1
        have "overlap a b" "overlap a c" using ab cd \<open>d = a\<close> by (simp_all add: overlap_sym)
        from step_shared[OF this, of K1] show ?thesis
          unfolding N1 N2 2 1 by (simp add: union_rect_commute)
      next
        case L: 2
        from L(2) consider "b = d" "K1 = L2" | K2 where "K1 = add_mset d K2" "L2 = add_mset b K2"
          unfolding add_eq_conv_ex[of b _ d] by blast
        then show ?thesis
        proof cases
          case 1
          have "overlap b a" "overlap b c" using ab cd \<open>b = d\<close> by (simp_all add: overlap_sym)
          from step_shared[OF this, of K1] show ?thesis
            unfolding N1 N2 2 L 1[symmetric] using 1 by (simp add: union_rect_commute)
        next
          case 2
          from step_disjoint[OF ab cd, of K2] show ?thesis
            unfolding N1 N2 \<open>K = add_mset c K1\<close> L 2 by simp
        qed
      qed
    qed
  qed
qed

lemma ex_normal: "\<exists>N. step\<^sup>*\<^sup>* M N \<and> normal N"
proof (induction M rule: measure_induct_rule[of size])
  case (less M)
  show ?case
  proof (cases "normal M")
    case True
    then show ?thesis by blast
  next
    case False
    then obtain M' where s: "step M M'" unfolding normal_def by blast
    then have "size M' < size M" by (simp add: step_size)
    from less[OF this] obtain N where "step\<^sup>*\<^sup>* M' N" "normal N" by blast
    with s show ?thesis by (meson converse_rtranclp_into_rtranclp)
  qed
qed

lemma normal_unique:
  "step\<^sup>*\<^sup>* M N1 \<Longrightarrow> normal N1 \<Longrightarrow> step\<^sup>*\<^sup>* M N2 \<Longrightarrow> normal N2 \<Longrightarrow> N1 = N2"
proof (induction M arbitrary: N1 N2 rule: measure_induct_rule[of size])
  case (less M)
  show ?case
  proof (cases "normal M")
    case True
    then have "N1 = M" "N2 = M"
      using less.prems(1,3) unfolding normal_def by (metis converse_rtranclpE)+
    then show ?thesis by simp
  next
    case False
    then have "M \<noteq> N1" "M \<noteq> N2" using less.prems(2,4) by auto
    with less.prems(1,3) obtain M1 M2 where
      m1: "step M M1" "step\<^sup>*\<^sup>* M1 N1" and m2: "step M M2" "step\<^sup>*\<^sup>* M2 N2"
      by (metis converse_rtranclpE)
    have sz: "size M1 < size M" "size M2 < size M"
      using step_size[OF m1(1)] step_size[OF m2(1)] by simp_all
    from step_local_confluence[OF m1(1) m2(1)] show ?thesis
    proof
      assume "M1 = M2"
      with less.IH[OF sz(1) m1(2) less.prems(2) _ less.prems(4)] m2(2) show ?thesis by simp
    next
      assume "\<exists>P. step M1 P \<and> step M2 P"
      then obtain P where p: "step M1 P" "step M2 P" by blast
      obtain Q where q: "step\<^sup>*\<^sup>* P Q" "normal Q" using ex_normal by blast
      have "step\<^sup>*\<^sup>* M1 Q" "step\<^sup>*\<^sup>* M2 Q"
        using p q(1) by (meson converse_rtranclp_into_rtranclp)+
      with less.IH[OF sz(1) m1(2) less.prems(2) _ q(2)] less.IH[OF sz(2) m2(2) less.prems(4) _ q(2)]
      show ?thesis by simp
    qed
  qed
qed


lemma absorb_steps:
  "step\<^sup>*\<^sup>* (add_mset cur (mset rs + F))
     (add_mset (fst (absorb cur rs)) (mset (fst (snd (absorb cur rs))) + F))"
proof (induction rs arbitrary: cur F)
  case Nil
  show ?case by simp
next
  case (Cons r rs)
  show ?case
  proof (cases "overlap cur r")
    case True
    have "step (add_mset cur (mset (r # rs) + F)) (add_mset (union_rect cur r) (mset rs + F))"
      by (rule stepI[OF True]) simp_all
    with Cons.IH[of "union_rect cur r" F] True show ?thesis
      by (simp add: case_prod_beta converse_rtranclp_into_rtranclp)
  next
    case False
    with Cons.IH[of cur "add_mset r F"] show ?thesis
      by (simp add: case_prod_beta)
  qed
qed

lemma sweep_steps: "step\<^sup>*\<^sup>* (mset rs + F) (mset (fst (sweep rs)) + F)"
proof (induction rs arbitrary: F rule: sweep.induct)
  case 1
  show ?case by simp
next
  case (2 r rs)
  let ?A = "absorb r rs"
  from 2[OF prod.collapse prod.collapse, of "add_mset (fst ?A) F"]
  have "step\<^sup>*\<^sup>* (add_mset (fst ?A) (mset (fst (snd ?A)) + F))
          (add_mset (fst ?A) (mset (fst (sweep (fst (snd ?A)))) + F))" by simp
  with absorb_steps[of r rs F] show ?case
    by (simp add: case_prod_beta)
qed

lemma absorb_unmerged:
  "\<not> snd (snd (absorb cur rs)) \<longleftrightarrow> (\<forall>r\<in>set rs. \<not> overlap cur r)"
  by (induction rs arbitrary: cur) (auto simp: case_prod_beta)

lemma absorb_no_overlap:
  "\<forall>r\<in>set rs. \<not> overlap cur r \<Longrightarrow> absorb cur rs = (cur, rs, False)"
  by (induction rs arbitrary: cur) (auto simp: case_prod_beta)

lemma sweep_unmerged: "\<not> snd (sweep rs) \<longleftrightarrow> sorted_wrt (\<lambda>a b. \<not> overlap a b) rs"
proof (induction rs rule: sweep.induct)
  case 1
  show ?case by simp
next
  case (2 r rs)
  note ih = 2[OF prod.collapse prod.collapse]
  show ?case
  proof (cases "\<forall>s\<in>set rs. \<not> overlap r s")
    case True
    with ih show ?thesis by (simp add: absorb_no_overlap case_prod_beta)
  next
    case False
    then have "snd (snd (absorb r rs))" using absorb_unmerged[of r rs] by blast
    with False show ?thesis by (auto simp: case_prod_beta)
  qed
qed

lemma sweep_fixed: "sorted_wrt (\<lambda>a b. \<not> overlap a b) rs \<Longrightarrow> sweep rs = (rs, False)"
  by (induction rs) (auto simp: absorb_no_overlap)

lemma merge_loop_steps: "step\<^sup>*\<^sup>* (mset rs) (mset (merge_loop rs))"
proof (induction rs rule: merge_loop.induct)
  case (1 rects)
  have sw: "step\<^sup>*\<^sup>* (mset rects) (mset (fst (sweep rects)))"
    using sweep_steps[of rects "{#}"] by simp
  show ?case
  proof (cases "snd (sweep rects)")
    case True
    from 1[of True "fst (sweep rects)"] True
    have "step\<^sup>*\<^sup>* (mset (fst (sweep rects))) (mset (merge_loop (fst (sweep rects))))"
      by (simp add: merge_pass_sweep)
    with sw True show ?thesis
      by (subst merge_loop.simps) (simp add: merge_pass_sweep)
  next
    case False
    with sw show ?thesis
      by (subst merge_loop.simps) (simp add: merge_pass_sweep)
  qed
qed

lemma merge_loop_nonoverlap: "sorted_wrt (\<lambda>a b. \<not> overlap a b) (merge_loop rs)"
proof (induction rs rule: merge_loop.induct)
  case (1 rects)
  show ?case
  proof (cases "snd (sweep rects)")
    case True
    from 1[of True "fst (sweep rects)"] True
    show ?thesis
      by (subst merge_loop.simps) (simp add: merge_pass_sweep)
  next
    case False
    then have "sorted_wrt (\<lambda>a b. \<not> overlap a b) rects" "fst (sweep rects) = rects"
      using sweep_unmerged[of rects] sweep_fixed[of rects] by simp_all
    with False show ?thesis
      by (subst merge_loop.simps) (simp add: merge_pass_sweep)
  qed
qed

lemma merge_loop_fixed: "sorted_wrt (\<lambda>a b. \<not> overlap a b) rs \<Longrightarrow> merge_loop rs = rs"
  by (subst merge_loop.simps) (simp add: merge_pass_sweep sweep_fixed)

lemma nonoverlap_normal:
  "sorted_wrt (\<lambda>a b. \<not> overlap a b) rs \<Longrightarrow> normal (mset rs)"
proof (induction rs)
  case Nil
  show ?case by (simp add: normal_def step_def)
next
  case (Cons r rs)
  then have ih: "normal (mset rs)" and no: "\<forall>s\<in>set rs. \<not> overlap r s" by simp_all
  show ?case
    unfolding normal_def step_def
  proof (intro notI, elim exE conjE)
    fix N K a b
    assume eq: "mset (r # rs) = add_mset a (add_mset b K)" and ov: "overlap a b"
    from eq have eq': "add_mset r (mset rs) = add_mset a (add_mset b K)" by simp
    then consider "r = a" "mset rs = add_mset b K"
      | K' where "mset rs = add_mset a K'" "add_mset b K = add_mset r K'"
      unfolding add_eq_conv_ex[of r _ a] by blast
    then show False
    proof cases
      case 1
      then have "b \<in> set rs" by (metis set_mset_mset union_single_eq_member)
      with no ov 1(1) show False by blast
    next
      case 2
      from 2(2) consider "b = r" | K2 where "K' = add_mset b K2"
        unfolding add_eq_conv_ex[of b _ r] by blast
      then show False
      proof cases
        case 1
        from 2(1) have "a \<in> set rs" by (metis set_mset_mset union_single_eq_member)
        with no ov 1 show False using overlap_sym by blast
      next
        case k: 2
        with 2(1) have "step (mset rs) (add_mset (union_rect a b) K2)"
          by (intro stepI[OF ov]) simp_all
        with ih show False unfolding normal_def by blast
      qed
    qed
  qed
qed

lemma merge_loop_mset: "mset rs = mset rs' \<Longrightarrow> mset (merge_loop rs) = mset (merge_loop rs')"
  using normal_unique[of "mset rs" "mset (merge_loop rs)" "mset (merge_loop rs')"]
    merge_loop_steps[of rs] merge_loop_steps[of rs']
    nonoverlap_normal[OF merge_loop_nonoverlap[of rs]] nonoverlap_normal[OF merge_loop_nonoverlap[of rs']]
  by simp

lemma step_covers:
  assumes "step M N" "r \<in># M"
  shows "\<exists>s. s \<in># N \<and> inside r s"
proof -
  from assms(1) obtain K a b where
    M: "M = add_mset a (add_mset b K)" and N: "N = add_mset (union_rect a b) K"
    unfolding step_def by blast
  from assms(2) M consider "r = a" | "r = b" | "r \<in># K" by auto
  then show ?thesis
  proof cases
    case 1
    then show ?thesis using N inside_union_left[of a b] by auto
  next
    case 2
    then show ?thesis using N inside_union_right[of b a] by auto
  next
    case 3
    then show ?thesis using N inside_refl[of r] by auto
  qed
qed

lemma steps_covers: "step\<^sup>*\<^sup>* M N \<Longrightarrow> r \<in># M \<Longrightarrow> \<exists>s. s \<in># N \<and> inside r s"
proof (induction arbitrary: r rule: converse_rtranclp_induct)
  case base
  then show ?case using inside_refl by blast
next
  case (step M M')
  from step_covers[OF step(1) step(4)] obtain s where "s \<in># M'" "inside r s" by blast
  with step(3)[of s] show ?case using inside_trans by blast
qed

section \<open>Properties of the merge\<close>

lemma to_from_corners [simp]: "to_corners (from_corners r) = r"
  by (cases r) simp

lemma from_to_corners [simp]: "from_corners (to_corners b) = b"
  by (cases b) simp

lemma to_from_corners_comp [simp]: "to_corners \<circ> from_corners = id"
  by (rule ext) simp

lemma from_to_corners_comp [simp]: "from_corners \<circ> to_corners = id"
  by (rule ext) simp

lemma merge_loop_Nil: "merge_loop [] = []"
  by (simp add: merge_loop_fixed)

lemma merge_loop_eq_Nil: "merge_loop rs = [] \<longleftrightarrow> rs = []"
proof
  assume "merge_loop rs = []"
  show "rs = []"
  proof (rule ccontr)
    assume "rs \<noteq> []"
    then obtain r where "r \<in># mset rs" by (cases rs) auto
    from steps_covers[OF merge_loop_steps this] \<open>merge_loop rs = []\<close> show False by simp
  qed
qed (simp add: merge_loop_Nil)

lemma merge_overlaps_corners:
  "map to_corners (merge_overlaps R) = merge_loop (map to_corners R)"
  by (simp add: merge_overlaps_def merge_loop_Nil)

lemma merge_overlaps_covers:
  "r \<in> set R \<Longrightarrow> \<exists>s. s \<in> set (merge_overlaps R) \<and> inside (to_corners r) (to_corners s)"
proof -
  assume "r \<in> set R"
  then have "to_corners r \<in># mset (map to_corners R)" by simp
  from steps_covers[OF merge_loop_steps this]
  obtain c where "c \<in> set (merge_loop (map to_corners R))" "inside (to_corners r) c" by auto
  then have "c \<in> set (map to_corners (merge_overlaps R))" by (simp only: merge_overlaps_corners)
  then obtain s where "s \<in> set (merge_overlaps R)" "c = to_corners s" by auto
  with \<open>inside (to_corners r) c\<close> show ?thesis by blast
qed

lemma overlap_inside_mono: "overlap a b \<Longrightarrow> inside a s \<Longrightarrow> inside b t \<Longrightarrow> overlap s t"
  by (cases a; cases b; cases s; cases t) (auto simp: overlap.simps)

lemma nonoverlap_members_equal:
  assumes "sorted_wrt (\<lambda>a b. \<not> overlap a b) rs" "s \<in> set rs" "t \<in> set rs" "overlap s t"
  shows "s = t"
proof -
  from assms(2,3) obtain i j where ij: "i < length rs" "rs ! i = s" "j < length rs" "rs ! j = t"
    by (metis in_set_conv_nth)
  show ?thesis
  proof (rule ccontr)
    assume ne: "s \<noteq> t"
    with ij have "i \<noteq> j" by auto
    then consider "i < j" | "j < i" by linarith
    then show False
    proof cases
      case 1
      from sorted_wrt_nth_less[OF assms(1) 1 ij(3)] ij assms(4) show False by simp
    next
      case 2
      from sorted_wrt_nth_less[OF assms(1) 2 ij(1)] ij assms(4) show False
        by (simp add: overlap_sym)
    qed
  qed
qed

lemma merge_loop_pair:
  assumes "overlap a b"
  shows "merge_loop [a, b] = [union_rect a b]"
proof -
  have "sweep [a, b] = ([union_rect a b], True)" using assms by simp
  then have "merge_loop [a, b] = merge_loop [union_rect a b]"
    by (subst merge_loop.simps) (simp add: merge_pass_sweep)
  then show ?thesis by (simp add: merge_loop_fixed)
qed

lemma inside_region: "inside (to_corners a) (to_corners b) \<Longrightarrow> region a \<subseteq> region b"
  by (cases a; cases b) (auto simp: region_def)

text \<open>Two evaluations of \<open>merge_overlaps\<close>, on a list and on its reversal.\<close>

lemma merge_overlaps_example:
  "merge_overlaps [(0, 0, 10, 10), (30, 0, 10, 10), (5, 5, 30, 2), (100, 100, 1, 1)] = [(0, 0, 40, 10), (100, 100, 1, 1)]"
  by code_simp

lemma merge_overlaps_example_reversed:
  "merge_overlaps [(100, 100, 1, 1), (5, 5, 30, 2), (30, 0, 10, 10), (0, 0, 10, 10)] = [(100, 100, 1, 1), (0, 0, 40, 10)]"
  by code_simp

lemma merge_overlaps_touching_example:
  "merge_overlaps [(0, 0, 10, 10), (10, 0, 10, 10)] = [(0, 0, 20, 10)]"
  by code_simp

text \<open>The pipeline on the small environment, and the label loop without indices.\<close>

lemma demo_run:
  "mask_sensitive_info demo_env [(''in.png'', [])] ''in.png'' ''out.png''
     = (Inr (''out.png'', \<lparr>ssn = 1, names = 1, total = 2\<rparr>),
        [(''out.png'', [(8, 98, 92, 114), (8, 8, 92, 114)]), (''in.png'', [])])"
  by code_simp

lemma label_loop_name_words:
  "label_loop name_words [0 ..< length name_words] = [(0, 0, 94, 14), (0, 0, 134, 14), (0, 0, 194, 14)]"
  by code_simp

lemma lookahead_following:
  "lookahead words i [1, 2, 3]
     = map (\<lambda>j. pair_box (words ! i) (words ! j)) [Suc i ..< min (i + 4) (length words)]"
proof -
  consider "length words \<le> Suc i" | "length words = i + 2" | "length words = i + 3"
    | "i + 4 \<le> length words" by linarith
  then show ?thesis
  proof cases
    case 1
    then show ?thesis by simp
  next
    case 2
    then have "[Suc i ..< min (i + 4) (length words)] = [Suc i]" by (simp add: upt_rec)
    with 2 show ?thesis by simp
  next
    case 3
    then have "[Suc i ..< min (i + 4) (length words)] = [Suc i, i + 2]" by (simp add: upt_rec)
    with 3 show ?thesis by simp
  next
    case 4
    then have "[Suc i ..< min (i + 4) (length words)] = [Suc i, i + 2, i + 3]"
      by (simp add: upt_rec min_def)
    with 4 show ?thesis by simp
  qed
qed

lemma label_loop_concat:
  "label_loop words is
     = concat (map (\<lambda>i. if is_label (word_text (words ! i)) then lookahead words i [1, 2, 3] else []) is)"
  by (induction "is") simp_all

section \<open>The claims\<close>

text \<open>
  C1.  When the input decodes, every outcome of \<^verbatim>\<open>mask_sensitive_info\<close> is one of
  two.  Either a library call raised (the recognizer, or the write of the output) and the
  file system is untouched; or the function returns the output path and a summary whose
  \<open>ssn\<close> is the length of the identifier detector's list after its merge, whose
  \<open>names\<close> is the length of the name detector's list after its merge, and whose
  \<open>total\<close> is exactly \<open>ssn + names\<close>.
\<close>

theorem mask_summary_total:
  assumes "imread E fs input_path = Some img"
  shows "case mask_sensitive_info E fs input_path output_path of
           (Inl e, fs') \<Rightarrow>
             fs' = fs \<and>
             (image_to_data E img = Inl e
              \<or> (\<exists>data. image_to_data E img = Inr data
                    \<and> imwrite E fs output_path
                         (draw E img (find_ssn_boxes (read_words_with_boxes data)
                                      @ find_name_boxes (read_words_with_boxes data))) = Inl e))
         | (Inr (p, c), fs') \<Rightarrow>
             p = output_path \<and> total c = ssn c + names c \<and>
             (\<exists>data. image_to_data E img = Inr data
                \<and> ssn c = length (merge_overlaps (ssn_hits (read_words_with_boxes data)))
                \<and> names c = length (merge_overlaps
                     (label_loop (read_words_with_boxes data) [0 ..< length (read_words_with_boxes data)]
                      @ cap_loop (read_words_with_boxes data) 0))
                \<and> imwrite E fs output_path
                     (draw E img (find_ssn_boxes (read_words_with_boxes data)
                                  @ find_name_boxes (read_words_with_boxes data))) = Inr fs')"
  using assms
  by (simp add: mask_sensitive_info_def Let_def find_ssn_boxes_def find_name_boxes_def
        split: sum.splits)

theorem mask_summary_total_witness:
  "imread demo_env [(''in.png'', [])] ''in.png'' = Some []
   \<and> fst (mask_sensitive_info demo_env [(''in.png'', [])] ''in.png'' ''out.png'')
        = Inr (''out.png'', \<lparr>ssn = 1, names = 1, total = 2\<rparr>)
   \<and> (1::nat) + 1 = 2"
proof -
  have h: "imread demo_env [(''in.png'', [])] ''in.png'' = Some []"
    by (simp add: demo_env_def)
  show ?thesis
    using h mask_summary_total[OF h, of "''out.png''"] by (simp add: demo_run)
qed

text \<open>
  C2.  The identifier pattern finds a match in \<^verbatim>\<open>"123-45-6789"\<close>, in
  \<^verbatim>\<open>"123456789"\<close> and in \<^verbatim>\<open>"123 45 6789"\<close>, and none in \<^verbatim>\<open>"12-345-6789"\<close>.
\<close>

theorem ssn_regex_examples:
  "re_search SSN_REGEX ''123-45-6789'' \<and> re_search SSN_REGEX ''123456789''
   \<and> re_search SSN_REGEX ''123 45 6789'' \<and> \<not> re_search SSN_REGEX ''12-345-6789''"
  by code_simp

text \<open>
  C3.  Any two rectangles at different positions of the output of \<^verbatim>\<open>_merge_overlaps\<close>
  fail the merge's own overlap test on their corner forms, whatever the input list.
\<close>

theorem merge_overlaps_pairwise_disjoint:
  "i \<noteq> j \<Longrightarrow> i < length (merge_overlaps R) \<Longrightarrow> j < length (merge_overlaps R) \<Longrightarrow>
   \<not> overlap (to_corners (merge_overlaps R ! i)) (to_corners (merge_overlaps R ! j))"
proof -
  assume ij: "i \<noteq> j" "i < length (merge_overlaps R)" "j < length (merge_overlaps R)"
  let ?out = "map to_corners (merge_overlaps R)"
  have s: "sorted_wrt (\<lambda>a b. \<not> overlap a b) ?out"
    unfolding merge_overlaps_corners by (rule merge_loop_nonoverlap)
  have len: "i < length ?out" "j < length ?out" using ij by simp_all
  from ij(1) consider "i < j" | "j < i" by linarith
  then have "\<not> overlap (?out ! i) (?out ! j)"
  proof cases
    case 1
    show ?thesis by (rule sorted_wrt_nth_less[OF s 1 len(2)])
  next
    case 2
    from sorted_wrt_nth_less[OF s 2 len(1)] show ?thesis
      using overlap_sym[of "?out ! i" "?out ! j"] by blast
  qed
  then show ?thesis using ij by simp
qed

theorem merge_overlaps_pairwise_disjoint_witness:
  "(0::nat) \<noteq> 1
   \<and> 0 < length (merge_overlaps [(0, 0, 10, 10), (30, 0, 10, 10), (5, 5, 30, 2), (100, 100, 1, 1)])
   \<and> 1 < length (merge_overlaps [(0, 0, 10, 10), (30, 0, 10, 10), (5, 5, 30, 2), (100, 100, 1, 1)])
   \<and> \<not> overlap (to_corners (merge_overlaps [(0, 0, 10, 10), (30, 0, 10, 10), (5, 5, 30, 2), (100, 100, 1, 1)] ! 0))
                  (to_corners (merge_overlaps [(0, 0, 10, 10), (30, 0, 10, 10), (5, 5, 30, 2), (100, 100, 1, 1)] ! 1))"
  using merge_overlaps_pairwise_disjoint[of 0 1 "[(0, 0, 10, 10), (30, 0, 10, 10), (5, 5, 30, 2), (100, 100, 1, 1)]"]
  by (simp add: merge_overlaps_example)

text \<open>
  C4.  Merging is idempotent: merging the output again returns the same list, hence the
  same set of rectangles.
\<close>

theorem merge_overlaps_idempotent:
  "merge_overlaps (merge_overlaps R) = merge_overlaps R
   \<and> set (merge_overlaps (merge_overlaps R)) = set (merge_overlaps R)"
proof -
  have "merge_loop (map to_corners (merge_overlaps R)) = map to_corners (merge_overlaps R)"
    unfolding merge_overlaps_corners by (rule merge_loop_fixed) (rule merge_loop_nonoverlap)
  then have "merge_overlaps (merge_overlaps R) = merge_overlaps R"
    by (simp add: merge_overlaps_def[of "merge_overlaps R"] map_idI)
  then show ?thesis by simp
qed

text \<open>
  C5.  Merging is order-independent: when \<open>R'\<close> is a permutation of \<open>R\<close>, the two
  outputs hold the same rectangles, as sets and even as multisets.
\<close>

theorem merge_overlaps_order_independent:
  "mset R' = mset R \<Longrightarrow>
   set (merge_overlaps R') = set (merge_overlaps R) \<and> mset (merge_overlaps R') = mset (merge_overlaps R)"
proof -
  assume p: "mset R' = mset R"
  then have "mset (map to_corners R') = mset (map to_corners R)" by simp
  then have "mset (merge_loop (map to_corners R')) = mset (merge_loop (map to_corners R))"
    by (rule merge_loop_mset)
  then have "mset (map to_corners (merge_overlaps R')) = mset (map to_corners (merge_overlaps R))"
    by (simp only: merge_overlaps_corners)
  then have "image_mset from_corners (mset (map to_corners (merge_overlaps R')))
           = image_mset from_corners (mset (map to_corners (merge_overlaps R)))" by simp
  then have m: "mset (merge_overlaps R') = mset (merge_overlaps R)"
    by (simp add: multiset.map_comp comp_def)
  then show ?thesis using mset_eq_setD by blast
qed

theorem merge_overlaps_order_independent_witness:
  "mset [(100, 100, 1, 1), (5, 5, 30, 2), (30, 0, 10, 10), (0, 0, 10, 10)] = mset [(0, 0, 10, 10), (30, 0, 10, 10), (5, 5, 30, 2), (100, 100, 1, 1)]
   \<and> set (merge_overlaps [(100, 100, 1, 1), (5, 5, 30, 2), (30, 0, 10, 10), (0, 0, 10, 10)]) = set (merge_overlaps [(0, 0, 10, 10), (30, 0, 10, 10), (5, 5, 30, 2), (100, 100, 1, 1)])
   \<and> mset (merge_overlaps [(100, 100, 1, 1), (5, 5, 30, 2), (30, 0, 10, 10), (0, 0, 10, 10)]) = mset (merge_overlaps [(0, 0, 10, 10), (30, 0, 10, 10), (5, 5, 30, 2), (100, 100, 1, 1)])"
  using merge_overlaps_order_independent[of "[(100, 100, 1, 1), (5, 5, 30, 2), (30, 0, 10, 10), (0, 0, 10, 10)]" "[(0, 0, 10, 10), (30, 0, 10, 10), (5, 5, 30, 2), (100, 100, 1, 1)]"]
  by simp

text \<open>
  C10.  Every input rectangle lies inside some rectangle of the output, edge by edge
  and as a region: merging never shrinks the region that will be masked.
\<close>

theorem merge_overlaps_covers_input:
  "r \<in> set R \<Longrightarrow>
   \<exists>s. s \<in> set (merge_overlaps R) \<and> inside (to_corners r) (to_corners s) \<and> region r \<subseteq> region s"
  using merge_overlaps_covers[of r R] inside_region by blast

theorem merge_overlaps_covers_input_witness:
  "(5, 5, 30, 2) \<in> set [(0, 0, 10, 10), (30, 0, 10, 10), (5, 5, 30, 2), (100, 100, 1, 1)]
   \<and> (\<exists>s. s \<in> set (merge_overlaps [(0, 0, 10, 10), (30, 0, 10, 10), (5, 5, 30, 2), (100, 100, 1, 1)])
          \<and> inside (to_corners (5, 5, 30, 2)) (to_corners s) \<and> region (5, 5, 30, 2) \<subseteq> region s)"
  using merge_overlaps_covers_input[of "(5, 5, 30, 2)" "[(0, 0, 10, 10), (30, 0, 10, 10), (5, 5, 30, 2), (100, 100, 1, 1)]"]
  by simp

text \<open>
  C7, as amended.  Two rectangles that touch edge to edge (the right edge of one equals
  the left edge of the other, both of non-negative width, their vertical intervals
  intersecting) pass the overlap test of line 83, which separates two rectangles only
  by a strict inequality.  So \<^verbatim>\<open>_merge_overlaps\<close> merges them: called on the pair, in
  either order, it returns their bounding union alone, and in the output for any list
  that contains both, one rectangle contains both.
\<close>

theorem touching_boxes_are_merged:
  assumes "x + w = a" "0 \<le> w" "0 \<le> c" "\<not> y + h < b" "\<not> b + d < y"
  shows "merge_overlaps [(x, y, w, h), (a, b, c, d)]
           = [from_corners (union_rect (to_corners (x, y, w, h)) (to_corners (a, b, c, d)))]
       \<and> merge_overlaps [(a, b, c, d), (x, y, w, h)]
           = [from_corners (union_rect (to_corners (x, y, w, h)) (to_corners (a, b, c, d)))]
       \<and> ((x, y, w, h) \<in> set R \<and> (a, b, c, d) \<in> set R \<longrightarrow>
            (\<exists>s. s \<in> set (merge_overlaps R) \<and> inside (to_corners (x, y, w, h)) (to_corners s)
                      \<and> inside (to_corners (a, b, c, d)) (to_corners s)))"
proof -
  let ?p = "to_corners (x, y, w, h)" and ?q = "to_corners (a, b, c, d)"
  have ov: "overlap ?p ?q" using assms by (simp add: overlap.simps)
  then have ov': "overlap ?q ?p" by (simp add: overlap_sym)
  have 1: "merge_overlaps [(x, y, w, h), (a, b, c, d)] = [from_corners (union_rect ?p ?q)]"
    using merge_loop_pair[OF ov] by (simp add: merge_overlaps_def)
  have 2: "merge_overlaps [(a, b, c, d), (x, y, w, h)] = [from_corners (union_rect ?p ?q)]"
    using merge_loop_pair[OF ov'] by (simp add: merge_overlaps_def union_rect_commute)
  have 3: "\<exists>s. s \<in> set (merge_overlaps R) \<and> inside ?p (to_corners s) \<and> inside ?q (to_corners s)"
    if mem: "(x, y, w, h) \<in> set R" "(a, b, c, d) \<in> set R"
  proof -
    from merge_overlaps_covers[OF mem(1)] obtain s where
      s: "s \<in> set (merge_overlaps R)" "inside ?p (to_corners s)" by blast
    from merge_overlaps_covers[OF mem(2)] obtain t where
      t: "t \<in> set (merge_overlaps R)" "inside ?q (to_corners t)" by blast
    have "sorted_wrt (\<lambda>a b. \<not> overlap a b) (map to_corners (merge_overlaps R))"
      unfolding merge_overlaps_corners by (rule merge_loop_nonoverlap)
    moreover have "to_corners s \<in> set (map to_corners (merge_overlaps R))"
      "to_corners t \<in> set (map to_corners (merge_overlaps R))" using s(1) t(1) by simp_all
    moreover have "overlap (to_corners s) (to_corners t)"
      by (rule overlap_inside_mono[OF ov s(2) t(2)])
    ultimately have "to_corners s = to_corners t" by (rule nonoverlap_members_equal)
    with s t show ?thesis by metis
  qed
  from 1 2 3 show ?thesis by blast
qed

theorem touching_boxes_are_merged_witness:
  "(0::int) + 10 = 10 \<and> (0::int) \<le> 10 \<and> (0::int) \<le> 10 \<and> \<not> (0::int) + 10 < 0 \<and> \<not> (0::int) + 10 < 0
   \<and> merge_overlaps [(0, 0, 10, 10), (10, 0, 10, 10)] = [(0, 0, 20, 10)]
   \<and> merge_overlaps [(10, 0, 10, 10), (0, 0, 10, 10)] = [(0, 0, 20, 10)]
   \<and> (0, 0, 10, 10) \<in> set [(0, 0, 10, 10), (50, 50, 5, 5), (10, 0, 10, 10)]
   \<and> (10, 0, 10, 10) \<in> set [(0, 0, 10, 10), (50, 50, 5, 5), (10, 0, 10, 10)]
   \<and> (\<exists>s. s \<in> set (merge_overlaps [(0, 0, 10, 10), (50, 50, 5, 5), (10, 0, 10, 10)])
          \<and> inside (to_corners (0, 0, 10, 10)) (to_corners s)
          \<and> inside (to_corners (10, 0, 10, 10)) (to_corners s))"
  using touching_boxes_are_merged[of 0 10 10 10 0 10 0 10 "[(0, 0, 10, 10), (50, 50, 5, 5), (10, 0, 10, 10)]"]
  by (simp add: union_rect.simps)

text \<open>
  The claim as stated, that both rectangles of a touching pair appear unmerged in the
  output, fails on the pair \<open>(0, 0, 10, 10)\<close>, \<open>(10, 0, 10, 10)\<close>: the output is the
  single rectangle \<open>(0, 0, 20, 10)\<close> and holds neither of the two.
\<close>

theorem touching_boxes_unmerged_counterexample:
  "(0::int) + 10 = 10
   \<and> merge_overlaps [(0, 0, 10, 10), (10, 0, 10, 10)] = [(0, 0, 20, 10)]
   \<and> (0, 0, 10, 10) \<notin> set (merge_overlaps [(0, 0, 10, 10), (10, 0, 10, 10)])
   \<and> (10, 0, 10, 10) \<notin> set (merge_overlaps [(0, 0, 10, 10), (10, 0, 10, 10)])"
  by (simp add: merge_overlaps_touching_example)

text \<open>
  C6.  Expansion is monotonic on rectangles, boxes of non-negative width and height.
  With the origin in the image, as every caller passes it (word offsets and their
  minima), the area painted for \<^verbatim>\<open>_expand_bbox(r, p)\<close> with a pad \<open>p \<ge> 0\<close> contains the
  area painted for \<open>r\<close>, edge by edge; on the pixels of an image it does so for every
  integer origin.  For pads \<open>0 \<le> p1 < p2\<close> the area painted for the expansion by \<open>p2\<close>
  contains the one for the expansion by \<open>p1\<close>, for every integer origin, also where the
  origin is clamped to 0.
\<close>

theorem expand_bbox_monotone:
  assumes "0 \<le> w" "0 \<le> h" "0 \<le> p" "0 \<le> p1" "p1 < p2"
  shows "(0 \<le> x \<and> 0 \<le> y \<longrightarrow>
            painted (x, y, w, h) \<subseteq> painted (expand_bbox x y w h p)
          \<and> inside (to_corners (x, y, w, h)) (to_corners (expand_bbox x y w h p)))
       \<and> painted (x, y, w, h) \<inter> image_pixels \<subseteq> painted (expand_bbox x y w h p)
       \<and> painted (expand_bbox x y w h p1) \<subseteq> painted (expand_bbox x y w h p2)
       \<and> inside (to_corners (expand_bbox x y w h p1)) (to_corners (expand_bbox x y w h p2))"
proof -
  have a: "painted (x, y, w, h) \<subseteq> painted (expand_bbox x y w h p)" if "0 \<le> x" "0 \<le> y"
    using that assms(1,2,3) by (auto simp: painted_def expand_bbox_def)
  have a': "inside (to_corners (x, y, w, h)) (to_corners (expand_bbox x y w h p))" if "0 \<le> x" "0 \<le> y"
    using that assms(3) by (simp add: expand_bbox_def max_def)
  have b: "painted (x, y, w, h) \<inter> image_pixels \<subseteq> painted (expand_bbox x y w h p)"
    using assms(1,2,3) by (auto simp: painted_def image_pixels_def expand_bbox_def)
  have c: "painted (expand_bbox x y w h p1) \<subseteq> painted (expand_bbox x y w h p2)"
    using assms(1,2,4,5) by (auto simp: painted_def expand_bbox_def)
  have c': "inside (to_corners (expand_bbox x y w h p1)) (to_corners (expand_bbox x y w h p2))"
    using assms(4,5) by (simp add: expand_bbox_def max_def)
  from a a' b c c' show ?thesis by blast
qed

theorem expand_bbox_monotone_witness:
  "(0::int) \<le> 10 \<and> (0::int) \<le> 4 \<and> (0::int) \<le> 2 \<and> (0::int) \<le> 2 \<and> (2::int) < 4
   \<and> (0::int) \<le> 1 \<and> (0::int) \<le> 5
   \<and> painted (1, 5, 10, 4) \<subseteq> painted (expand_bbox 1 5 10 4 2)
   \<and> inside (to_corners (1, 5, 10, 4)) (to_corners (expand_bbox 1 5 10 4 2))
   \<and> painted (1, 5, 10, 4) \<inter> image_pixels \<subseteq> painted (expand_bbox 1 5 10 4 2)
   \<and> painted (expand_bbox 1 5 10 4 2) \<subseteq> painted (expand_bbox 1 5 10 4 4)
   \<and> inside (to_corners (expand_bbox 1 5 10 4 2)) (to_corners (expand_bbox 1 5 10 4 4))
   \<and> expand_bbox 1 5 10 4 2 = (0, 3, 14, 8)"
  using expand_bbox_monotone[of 10 4 2 2 4 1 5] by (simp add: expand_bbox_def)

text \<open>
  C8, as amended.  A token triggers the label heuristic exactly when its text, with the
  colons at BOTH ends stripped (\<^verbatim>\<open>t.strip(":")\<close>) and lower-cased, is one of
  \<^verbatim>\<open>name\<close>, \<^verbatim>\<open>applicant\<close>, \<^verbatim>\<open>holder\<close>, \<^verbatim>\<open>bearer\<close>.  The label loop returns,
  token by token in order, nothing for a token that does not trigger and, for one at
  index \<open>i\<close> that does, one box for each of the up to three tokens at the indices
  \<open>i + 1\<close> to \<open>i + 3\<close> that exist; that box is the bounding union of the label token's
  box and the following token's box, expanded with pad 2.
\<close>

theorem label_heuristic_contributions:
  "label_loop words [0 ..< length words]
     = concat (map (\<lambda>i. if lower (strip (\<lambda>c. c \<in> set '':'') (word_text (words ! i))) \<in> NAME_LABELS
                         then map (\<lambda>j. pair_box (words ! i) (words ! j))
                                  [Suc i ..< min (i + 4) (length words)]
                         else [])
                   [0 ..< length words])
   \<and> pair_box w nxt
     = (case from_corners (union_rect (to_corners (word_left w, word_top w, word_width w, word_height w))
                                      (to_corners (word_left nxt, word_top nxt, word_width nxt, word_height nxt)))
        of (x, y, wd, ht) \<Rightarrow> expand_bbox x y wd ht 2)"
proof
  show "label_loop words [0 ..< length words]
     = concat (map (\<lambda>i. if lower (strip (\<lambda>c. c \<in> set '':'') (word_text (words ! i))) \<in> NAME_LABELS
                         then map (\<lambda>j. pair_box (words ! i) (words ! j))
                                  [Suc i ..< min (i + 4) (length words)]
                         else [])
                   [0 ..< length words])"
    unfolding label_loop_concat lookahead_following is_label_def ..
  show "pair_box w nxt
     = (case from_corners (union_rect (to_corners (word_left w, word_top w, word_width w, word_height w))
                                      (to_corners (word_left nxt, word_top nxt, word_width nxt, word_height nxt)))
        of (x, y, wd, ht) \<Rightarrow> expand_bbox x y wd ht 2)"
    by (simp add: pair_box_def Let_def union_rect.simps)
qed

theorem label_heuristic_contributions_witness:
  "concat (map (\<lambda>i. if lower (strip (\<lambda>c. c \<in> set '':'') (word_text (name_words ! i))) \<in> NAME_LABELS
                      then map (\<lambda>j. pair_box (name_words ! i) (name_words ! j))
                               [Suc i ..< min (i + 4) (length name_words)]
                      else [])
                [0 ..< length name_words])
     = [(0, 0, 94, 14), (0, 0, 134, 14), (0, 0, 194, 14)]"
  using label_heuristic_contributions[of name_words] label_loop_name_words
  by simp

text \<open>
  The claim as stated strips trailing colons only.  The token \<^verbatim>\<open>":name"\<close> separates
  the two readings: stripped at the end only it is no label, yet the code takes it for
  one and pairs it with the token that follows.
\<close>

theorem leading_colon_label_counterexample:
  "\<not> trailing_colon_label '':name'' \<and> \<not> trailing_colon_label ''John''
   \<and> is_label '':name''
   \<and> label_loop
        [\<lparr>word_text = '':name'', word_left = 0, word_top = 0, word_width = 40, word_height = 10\<rparr>,
         \<lparr>word_text = ''John'', word_left = 50, word_top = 0, word_width = 40, word_height = 10\<rparr>]
        [0 ..< 2]
       = [(0, 0, 94, 14)]"
  by code_simp

text \<open>
  C9.  When the image read yields nothing, \<^verbatim>\<open>mask_sensitive_info\<close> fails with the
  \<^verbatim>\<open>ValueError\<close> of line 154, the error of an unreadable image, and the file
  system is the one it started from: no output file is written.
\<close>

theorem unreadable_image_raises:
  "imread E fs input_path = None \<Longrightarrow>
   mask_sensitive_info E fs input_path output_path
     = (Inl (ValueError (''Could not read image: '' @ input_path)), fs)"
  by (simp add: mask_sensitive_info_def)

theorem unreadable_image_raises_witness:
  "imread demo_env [(''in.png'', [])] ''nope.png'' = None
   \<and> mask_sensitive_info demo_env [(''in.png'', [])] ''nope.png'' ''out.png''
       = (Inl (ValueError ''Could not read image: nope.png''), [(''in.png'', [])])"
  using unreadable_image_raises[of demo_env "[(''in.png'', [])]" "''nope.png''" "''out.png''"]
  by (simp add: demo_env_def)

end
